theory Spec2Isabelle
  imports Main "HOL-Library.Multiset"
begin

section \<open>McCulloch-Pitts neurons, gates and the truth-table decoder\<close>

text \<open>
  The notebook defines two classes, \<^verbatim>\<open>MPInput\<close> and \<^verbatim>\<open>MPNeuron\<close>, three gate functions
  (\<^verbatim>\<open>AND\<close>, \<^verbatim>\<open>OR\<close>, \<^verbatim>\<open>NOT\<close>) and the class \<^verbatim>\<open>Decoder\<close>, whose method \<^verbatim>\<open>decode\<close> returns a
  closure over mutable objects. Python objects are shared by reference, so the inputs live
  in an explicit store: a reference is a position in the store, and an allocation appends
  a cell. Python integers are unbounded, hence \<open>int\<close>.
\<close>

subsection \<open>Errors\<close>

datatype error = IndexError | NameError | AssertionError

subsection \<open>MPInput\<close>

text \<open>
  \<^verbatim>\<open>
  class MPInput(object):
      def __init__(self, excitatory):
          self.excitatory = excitatory
          self.value = 0
      def trigger(self, value):
          self.value = value
  \<close>
  The attribute \<^verbatim>\<open>value\<close> is the field \<open>input_value\<close>.
\<close>

record MPInput =
  excitatory :: bool
  input_value :: int

type_synonym ref = nat
type_synonym store = "MPInput list"

definition MPInput_init :: "bool \<Rightarrow> MPInput" where
  "MPInput_init e = \<lparr>excitatory = e, input_value = 0\<rparr>"

text \<open>Constructing an object puts it in a fresh cell and yields the reference to it.\<close>

definition new_MPInput :: "store \<Rightarrow> bool \<Rightarrow> store \<times> ref" where
  "new_MPInput h e = (h @ [MPInput_init e], length h)"

definition trigger :: "store \<Rightarrow> ref \<Rightarrow> int \<Rightarrow> store" where
  "trigger h r v = h[r := (h ! r)\<lparr>input_value := v\<rparr>]"

subsection \<open>MPNeuron\<close>

text \<open>
  \<^verbatim>\<open>
  class MPNeuron(object):
      def __init__(self, threshold, inputs):
          self.threshold = threshold
          self.inputs = inputs
      def activate(self):
          excitations = 0
          for trigger in self.inputs:
              if trigger.excitatory:
                  excitations += trigger.value
              else:
                  if trigger.value:
                      return 0
          if excitations >= self.threshold:
              return 1
          return 0
  \<close>
  A neuron holds references to its inputs. The loop either ends with the accumulated
  excitation (\<open>Some\<close>) or is left early by \<^verbatim>\<open>return 0\<close> (\<open>None\<close>). A value is true
  in Python when it is not zero.
\<close>

record MPNeuron =
  threshold :: int
  inputs :: "ref list"

fun activate_loop :: "store \<Rightarrow> ref list \<Rightarrow> int \<Rightarrow> int option" where
  "activate_loop h [] excitations = Some excitations"
| "activate_loop h (r # rs) excitations =
     (if excitatory (h ! r) then activate_loop h rs (excitations + input_value (h ! r))
      else if input_value (h ! r) \<noteq> 0 then None
      else activate_loop h rs excitations)"

definition activate :: "store \<Rightarrow> MPNeuron \<Rightarrow> int" where
  "activate h n =
     (case activate_loop h (inputs n) 0 of
        None \<Rightarrow> 0
      | Some excitations \<Rightarrow> if excitations \<ge> threshold n then 1 else 0)"

subsection \<open>The gates\<close>

text \<open>
  \<^verbatim>\<open>
  def AND(x1, x2):
      inputs = [MPInput(True), MPInput(True)]
      gate = MPNeuron(2, inputs)
      inputs[0].trigger(x1)
      inputs[1].trigger(x2)
      return gate.activate()
  \<close>
  \<^verbatim>\<open>OR\<close> is the same with threshold 1; \<^verbatim>\<open>NOT\<close> has one inhibitory input and threshold 0.
  The objects of a gate are local to the call and unreachable afterwards, so each call
  works on a store of its own.
\<close>

definition AND :: "int \<Rightarrow> int \<Rightarrow> int" where
  "AND x1 x2 =
     (let (h, r0) = new_MPInput [] True;
          (h, r1) = new_MPInput h True;
          ins = [r0, r1];
          gate = \<lparr>threshold = 2, inputs = ins\<rparr>;
          h = trigger h (ins ! 0) x1;
          h = trigger h (ins ! 1) x2
      in activate h gate)"

definition OR :: "int \<Rightarrow> int \<Rightarrow> int" where
  "OR x1 x2 =
     (let (h, r0) = new_MPInput [] True;
          (h, r1) = new_MPInput h True;
          ins = [r0, r1];
          gate = \<lparr>threshold = 1, inputs = ins\<rparr>;
          h = trigger h (ins ! 0) x1;
          h = trigger h (ins ! 1) x2
      in activate h gate)"

definition NOT :: "int \<Rightarrow> int" where
  "NOT x =
     (let (h, r0) = new_MPInput [] False;
          ins = [r0];
          gate = \<lparr>threshold = 0, inputs = ins\<rparr>;
          h = trigger h (ins ! 0) x
      in activate h gate)"

subsection \<open>Decoder: construction\<close>

text \<open>
  \<^verbatim>\<open>
  class Decoder(object):
      def __init__(self, vectors):
          self.vectors = vectors
          self.vec_length = len(self.vectors[0])
          assert(len(vec) == self.vec_length for vec in vectors)
  \<close>
  \<^verbatim>\<open>self.vectors[0]\<close> raises IndexError on an empty list. The operand of \<^verbatim>\<open>assert\<close> is a
  generator expression: an object, which Python takes as true without running it, so
  the comparisons inside are never evaluated.
\<close>

record Decoder =
  vectors :: "int list list"
  vec_length :: nat

definition generator_truth :: "bool list \<Rightarrow> bool" where
  "generator_truth g = True"

definition Decoder_init :: "int list list \<Rightarrow> error + Decoder" where
  "Decoder_init vs =
     (case vs of
        [] \<Rightarrow> Inl IndexError
      | v0 # _ \<Rightarrow>
          (let n = length v0 in
           if generator_truth (map (\<lambda>vec. length vec = n) vs)
           then Inr \<lparr>vectors = vs, vec_length = n\<rparr>
           else Inl AssertionError))"

subsection \<open>Decoder: building the units\<close>

text \<open>
  \<^verbatim>\<open>
  def decode(self):
      decoder_units = []
      for vector in self.vectors:
          threshold = sum(vector)
          inputs = []
          for i in range(self.vec_length):
              if vector[i] == 1:
                  inputs.append(MPInput(True))
              else:
                  inputs.append(MPInput(False))
          gate = MPNeuron(threshold, inputs)
          decoder_units.append(gate)
      def decoder(*args): ...
      return decoder
  \<close>
  \<^verbatim>\<open>vector[i]\<close> raises IndexError when the vector is shorter than \<^verbatim>\<open>vec_length\<close>. After
  the loop the variable \<^verbatim>\<open>inputs\<close> is still bound to the list made for the last vector
  (and is unbound when there was no vector); the closure captures it.
\<close>

fun build_inputs :: "int list \<Rightarrow> nat list \<Rightarrow> store \<Rightarrow> ref list \<Rightarrow> error + store \<times> ref list" where
  "build_inputs vector [] h ins = Inr (h, ins)"
| "build_inputs vector (i # js) h ins =
     (if i < length vector then
        (let (h', r) = new_MPInput h (vector ! i = 1)
         in build_inputs vector js h' (ins @ [r]))
      else Inl IndexError)"

definition build_unit :: "nat \<Rightarrow> int list \<Rightarrow> store \<Rightarrow> error + store \<times> MPNeuron" where
  "build_unit n vector h =
     (case build_inputs vector [0..<n] h [] of
        Inl e \<Rightarrow> Inl e
      | Inr (h', ins) \<Rightarrow> Inr (h', \<lparr>threshold = sum_list vector, inputs = ins\<rparr>))"

fun build_units ::
  "nat \<Rightarrow> int list list \<Rightarrow> store \<Rightarrow> MPNeuron list \<Rightarrow> ref list option
     \<Rightarrow> error + store \<times> MPNeuron list \<times> ref list option" where
  "build_units n [] h decoder_units ins = Inr (h, decoder_units, ins)"
| "build_units n (vector # rest) h decoder_units ins =
     (case build_unit n vector h of
        Inl e \<Rightarrow> Inl e
      | Inr (h', gate) \<Rightarrow> build_units n rest h' (decoder_units @ [gate]) (Some (inputs gate)))"

text \<open>
  The state the closure works on: the store, the list \<^verbatim>\<open>decoder_units\<close> (reversed in
  place by every call), the captured variable \<^verbatim>\<open>inputs\<close> and \<^verbatim>\<open>self.vec_length\<close>.
\<close>

record closure =
  heap :: store
  decoder_units :: "MPNeuron list"
  captured_inputs :: "ref list option"
  self_vec_length :: nat

definition decode :: "Decoder \<Rightarrow> error + closure" where
  "decode d =
     (case build_units (vec_length d) (vectors d) [] [] None of
        Inl e \<Rightarrow> Inl e
      | Inr (h, us, ins) \<Rightarrow>
          Inr \<lparr>heap = h, decoder_units = us, captured_inputs = ins,
               self_vec_length = vec_length d\<rparr>)"

subsection \<open>Decoder: the returned callable\<close>

text \<open>
  \<^verbatim>\<open>
  def decoder(*args):
      for i in range(self.vec_length):
          inputs[i].trigger(args[i])
      decoder_units.reverse()
      or_arg = decoder_units[0].activate()
      for unit in decoder_units:
          for i in range(self.vec_length):
              unit.inputs[i].trigger(args[i])
          val = unit.activate()
          or_arg = OR(or_arg, val)
      return or_arg
  \<close>
  A call returns its result or the exception it raised, together with the state it
  leaves behind. \<open>trigger_args\<close> is the loop over \<^verbatim>\<open>range(self.vec_length)\<close>; an index
  beyond the argument tuple (or beyond the input list) raises IndexError.
\<close>

fun trigger_args :: "ref list \<Rightarrow> int list \<Rightarrow> nat list \<Rightarrow> store \<Rightarrow> error option \<times> store" where
  "trigger_args ins args [] h = (None, h)"
| "trigger_args ins args (i # js) h =
     (if i < length ins \<and> i < length args
      then trigger_args ins args js (trigger h (ins ! i) (args ! i))
      else (Some IndexError, h))"

fun or_loop ::
  "nat \<Rightarrow> int list \<Rightarrow> MPNeuron list \<Rightarrow> int \<Rightarrow> store \<Rightarrow> (error + int) \<times> store" where
  "or_loop n args [] or_arg h = (Inr or_arg, h)"
| "or_loop n args (unit # units) or_arg h =
     (case trigger_args (inputs unit) args [0..<n] h of
        (Some e, h') \<Rightarrow> (Inl e, h')
      | (None, h') \<Rightarrow> or_loop n args units (OR or_arg (activate h' unit)) h')"

definition decoder :: "closure \<Rightarrow> int list \<Rightarrow> (error + int) \<times> closure" where
  "decoder c args =
     (let n = self_vec_length c in
      case (case captured_inputs c of
              None \<Rightarrow> if n = 0 then (None, heap c) else (Some NameError, heap c)
            | Some ins \<Rightarrow> trigger_args ins args [0..<n] (heap c)) of
        (Some e, h1) \<Rightarrow> (Inl e, c\<lparr>heap := h1\<rparr>)
      | (None, h1) \<Rightarrow>
          (let us = rev (decoder_units c) in
           case us of
             [] \<Rightarrow> (Inl IndexError, c\<lparr>heap := h1, decoder_units := us\<rparr>)
           | u0 # _ \<Rightarrow>
               (let or_arg = activate h1 u0;
                    (res, h2) = or_loop n args us or_arg h1
                in (res, c\<lparr>heap := h2, decoder_units := us\<rparr>))))"

text \<open>
  A fresh callable for a collection of vectors (\<^verbatim>\<open>Decoder(vs).decode()\<close>), and the
  results of a sequence of invocations of one callable, each working on the state its
  predecessor left.
\<close>

definition make_decoder :: "int list list \<Rightarrow> error + closure" where
  "make_decoder vs = (case Decoder_init vs of Inl e \<Rightarrow> Inl e | Inr d \<Rightarrow> decode d)"

fun run_calls :: "closure \<Rightarrow> int list list \<Rightarrow> (error + int) list" where
  "run_calls c [] = []"
| "run_calls c (args # rest) = (let (res, c') = decoder c args in res # run_calls c' rest)"

definition bits :: "int list \<Rightarrow> bool" where
  "bits xs = (\<forall>x\<in>set xs. x = 0 \<or> x = 1)"

definition call_results :: "int list list \<Rightarrow> int list list \<Rightarrow> error + (error + int) list" where
  "call_results vs calls =
     (case make_decoder vs of Inl e \<Rightarrow> Inl e | Inr c \<Rightarrow> Inr (run_calls c calls))"

section \<open>Notions used in the proofs\<close>

text \<open>
  What \<open>activate\<close> accumulates over a list of references: the sum of the excitatory
  values, and whether an inhibitory input with a true value occurs.
\<close>

definition excitation :: "store \<Rightarrow> ref list \<Rightarrow> int" where
  "excitation h rs = (\<Sum>r\<leftarrow>rs. if excitatory (h ! r) then input_value (h ! r) else 0)"

definition inhibited :: "store \<Rightarrow> ref list \<Rightarrow> bool" where
  "inhibited h rs = (\<exists>r\<in>set rs. \<not> excitatory (h ! r) \<and> input_value (h ! r) \<noteq> 0)"

text \<open>The same rule on the list of polarities and the list of values.\<close>

definition unit_output :: "bool list \<Rightarrow> int list \<Rightarrow> int \<Rightarrow> int" where
  "unit_output es xs t =
     (if \<exists>(e, x)\<in>set (zip es xs). \<not> e \<and> x \<noteq> 0 then 0
      else if t \<le> (\<Sum>(e, x)\<leftarrow>zip es xs. if e then x else 0) then 1 else 0)"

text \<open>
  For a vector \<open>v\<close> and arguments \<open>a\<close>: the sum of the arguments at the positions
  where \<open>v\<close> is 1, and whether an argument is set at a position where \<open>v\<close> is not 1.
\<close>

definition matched_sum :: "int list \<Rightarrow> int list \<Rightarrow> int" where
  "matched_sum v a = (\<Sum>(e, x)\<leftarrow>zip (map (\<lambda>b. b = 1) v) a. if e then x else 0)"

definition mismatch :: "int list \<Rightarrow> int list \<Rightarrow> bool" where
  "mismatch v a = (\<exists>(e, x)\<in>set (zip (map (\<lambda>b. b = 1) v) a). \<not> e \<and> x \<noteq> 0)"

text \<open>
  \<open>unit_for pol n u v\<close>: the neuron \<open>u\<close> has the shape \<open>decode\<close> gives the unit of the
  vector \<open>v\<close> in a store whose cells have the polarities \<open>pol\<close>.
\<close>

definition unit_for :: "bool list \<Rightarrow> nat \<Rightarrow> MPNeuron \<Rightarrow> int list \<Rightarrow> bool" where
  "unit_for pol n u v =
     (threshold u = sum_list v \<and> length (inputs u) = n \<and> length v = n
      \<and> distinct (inputs u) \<and> (\<forall>r\<in>set (inputs u). r < length pol)
      \<and> map (\<lambda>r. pol ! r) (inputs u) = map (\<lambda>b. b = 1) v)"

text \<open>Two stores with the same polarities, the first with values no larger.\<close>

definition store_le :: "store \<Rightarrow> store \<Rightarrow> bool" where
  "store_le hy hx =
     list_all2 (\<lambda>cy cx. excitatory cy = excitatory cx \<and> input_value cy \<le> input_value cx) hy hx"

text \<open>A store of three inputs for the examples.\<close>

definition example_store :: store where
  "example_store = [\<lparr>excitatory = True, input_value = 1\<rparr>, \<lparr>excitatory = False, input_value = 0\<rparr>,
                    \<lparr>excitatory = True, input_value = 0\<rparr>]"

section \<open>Evaluation rules\<close>

lemmas build_simps =
  make_decoder_def Decoder_init_def generator_truth_def decode_def build_unit_def
  new_MPInput_def MPInput_init_def

lemmas call_simps =
  call_results_def decoder_def trigger_def activate_def OR_def Let_def upt_conv_Cons

section \<open>The activation rule\<close>

lemma activate_loop_eq:
  "activate_loop h rs acc = (if inhibited h rs then None else Some (acc + excitation h rs))"
  by (induction rs arbitrary: acc) (auto simp: inhibited_def excitation_def)

lemma activate_eq:
  "activate h n = (if inhibited h (inputs n) then 0
                   else if threshold n \<le> excitation h (inputs n) then 1 else 0)"
  by (simp add: activate_def activate_loop_eq)

lemma excitation_sum_mset:
  "excitation h rs =
     sum_mset (image_mset (\<lambda>r. if excitatory (h ! r) then input_value (h ! r) else 0) (mset rs))"
  by (induction rs) (simp_all add: excitation_def)

lemma excitation_mset: "mset rs' = mset rs \<Longrightarrow> excitation h rs' = excitation h rs"
  by (simp add: excitation_sum_mset)

lemma inhibited_mset: "mset rs' = mset rs \<Longrightarrow> inhibited h rs' = inhibited h rs"
  using mset_eq_setD [of rs' rs] by (simp add: inhibited_def)

text \<open>
  Claim C2. For a neuron with threshold \<open>t\<close> whose inputs hold bits, \<open>activate\<close>
  returns 0 if an inhibitory input has the value 1; otherwise it returns 1 exactly when
  the sum of the values of the excitatory inputs is at least \<open>t\<close>. The result is the
  same for a neuron with the same threshold and the same inputs in another order.
\<close>

theorem activate_rule:
  assumes "\<forall>r\<in>set (inputs n). input_value (h ! r) = 0 \<or> input_value (h ! r) = 1"
  shows "activate h n =
           (if \<exists>r\<in>set (inputs n). \<not> excitatory (h ! r) \<and> input_value (h ! r) = 1 then 0
            else if threshold n \<le> (\<Sum>r\<leftarrow>inputs n. if excitatory (h ! r) then input_value (h ! r) else 0)
                 then 1 else 0)
       \<and> (\<forall>n'::MPNeuron. threshold n' = threshold n \<and> mset (inputs n') = mset (inputs n)
               \<longrightarrow> activate h n' = activate h n)"
proof (intro conjI allI impI)
  have "inhibited h (inputs n) = (\<exists>r\<in>set (inputs n). \<not> excitatory (h ! r) \<and> input_value (h ! r) = 1)"
    using assms unfolding inhibited_def by fastforce
  then show "activate h n =
           (if \<exists>r\<in>set (inputs n). \<not> excitatory (h ! r) \<and> input_value (h ! r) = 1 then 0
            else if threshold n \<le> (\<Sum>r\<leftarrow>inputs n. if excitatory (h ! r) then input_value (h ! r) else 0)
                 then 1 else 0)"
    by (simp add: activate_eq excitation_def)
next
  fix n' :: MPNeuron assume "threshold n' = threshold n \<and> mset (inputs n') = mset (inputs n)"
  then have t: "threshold n' = threshold n" and m: "mset (inputs n') = mset (inputs n)"
    by simp_all
  show "activate h n' = activate h n"
    by (simp only: activate_eq t excitation_mset [OF m] inhibited_mset [OF m])
qed

theorem activate_rule_witness:
  "activate example_store \<lparr>threshold = 1, inputs = [0, 1, 2]\<rparr> = 1
   \<and> activate example_store \<lparr>threshold = 1, inputs = [2, 1, 0]\<rparr> = 1"
proof -
  let ?n = "\<lparr>threshold = 1, inputs = [0, 1, 2]\<rparr>"
  have prem: "\<forall>r\<in>set (inputs ?n).
       input_value (example_store ! r) = 0 \<or> input_value (example_store ! r) = 1"
    by (simp add: example_store_def)
  note rule = activate_rule [OF prem]
  have a: "activate example_store ?n = 1"
    by (subst rule [THEN conjunct1]) (simp add: example_store_def)
  have b: "activate example_store \<lparr>threshold = 1, inputs = [2, 1, 0]\<rparr> = activate example_store ?n"
    by (rule rule [THEN conjunct2, rule_format]) simp
  show ?thesis using a b by simp
qed

section \<open>The gates\<close>

text \<open>
  Claim C8. For all bits \<open>x1\<close>, \<open>x2\<close>, \<open>x\<close>: \<open>AND x1 x2\<close> is 1 exactly when both
  arguments are 1, \<open>OR x1 x2\<close> is 1 exactly when one of them is 1, and \<open>NOT x = 1 - x\<close>.
\<close>

theorem gates_truth_tables:
  assumes "x1 = 0 \<or> x1 = 1" and "x2 = 0 \<or> x2 = 1" and "x = 0 \<or> x = 1"
  shows "(AND x1 x2 = 1 \<longleftrightarrow> x1 = 1 \<and> x2 = 1)
       \<and> (OR x1 x2 = 1 \<longleftrightarrow> x1 = 1 \<or> x2 = 1)
       \<and> NOT x = 1 - x"
proof (intro conjI)
  show "AND x1 x2 = 1 \<longleftrightarrow> x1 = 1 \<and> x2 = 1"
    using assms(1,2) by (auto simp: AND_def new_MPInput_def MPInput_init_def trigger_def activate_def)
  show "OR x1 x2 = 1 \<longleftrightarrow> x1 = 1 \<or> x2 = 1"
    using assms(1,2) by (auto simp: OR_def new_MPInput_def MPInput_init_def trigger_def activate_def)
  show "NOT x = 1 - x"
    using assms(3) by (auto simp: NOT_def new_MPInput_def MPInput_init_def trigger_def activate_def)
qed

theorem gates_truth_tables_witness:
  "((1::int) = 0 \<or> (1::int) = 1) \<and> ((0::int) = 0 \<or> (0::int) = 1)
   \<and> AND 1 0 \<noteq> 1 \<and> OR 1 0 = 1 \<and> NOT 1 = 0"
  using gates_truth_tables [of 1 0 1] by simp

section \<open>Triggering the inputs of a neuron\<close>

lemma trigger_length [simp]: "length (trigger h r v) = length h"
  by (simp add: trigger_def)

lemma trigger_excitatory [simp]: "map excitatory (trigger h r v) = map excitatory h"
proof (cases "r < length h")
  case True
  then show ?thesis
    by (intro nth_equalityI) (simp_all add: trigger_def nth_list_update)
next
  case False
  then have "length h \<le> r" by simp
  then show ?thesis by (simp add: trigger_def list_update_beyond)
qed

lemma trigger_args_excitatory: "map excitatory (snd (trigger_args ins args js h)) = map excitatory h"
  by (induction js arbitrary: h) simp_all

lemma trigger_args_length: "length (snd (trigger_args ins args js h)) = length h"
  by (induction js arbitrary: h) simp_all

lemma trigger_args_no_error:
  "\<forall>i\<in>set js. i < length ins \<and> i < length args \<Longrightarrow> fst (trigger_args ins args js h) = None"
  by (induction js arbitrary: h) simp_all

lemma trigger_args_values:
  assumes "distinct ins" and "\<forall>r\<in>set ins. r < length h"
      and "n \<le> length ins" and "n \<le> length args" and "i < length ins"
  shows "input_value (snd (trigger_args ins args [k..<n] h) ! (ins ! i)) =
           (if k \<le> i \<and> i < n then args ! i else input_value (h ! (ins ! i)))"
  using assms
proof (induction "n - k" arbitrary: k h)
  case 0
  then show ?case by simp
next
  case (Suc d)
  then have kn: "k < n" by simp
  let ?h1 = "trigger h (ins ! k) (args ! k)"
  have step: "trigger_args ins args [k..<n] h = trigger_args ins args [Suc k..<n] ?h1"
    using kn Suc.prems by (simp add: upt_conv_Cons)
  have valid1: "\<forall>r\<in>set ins. r < length ?h1" using Suc.prems by simp
  have ih: "input_value (snd (trigger_args ins args [Suc k..<n] ?h1) ! (ins ! i)) =
           (if Suc k \<le> i \<and> i < n then args ! i else input_value (?h1 ! (ins ! i)))"
    using Suc.hyps(2) Suc.prems valid1 by (intro Suc.hyps(1)) simp_all
  have k_len: "k < length ins" using kn Suc.prems by simp
  have at_k: "input_value (?h1 ! (ins ! k)) = args ! k"
    using Suc.prems k_len by (simp add: trigger_def)
  have other: "i \<noteq> k \<Longrightarrow> ?h1 ! (ins ! i) = h ! (ins ! i)"
    using Suc.prems k_len by (simp add: trigger_def nth_eq_iff_index_eq)
  show ?case
  proof (cases "i = k")
    case True
    then show ?thesis using ih at_k kn by (simp add: step)
  next
    case False
    then show ?thesis using ih other by (auto simp: step)
  qed
qed

section \<open>Monotonicity without inhibition\<close>

lemma store_le_refl: "store_le h h"
  by (simp add: store_le_def list_all2_same)

lemma store_le_trigger:
  assumes "store_le hy hx" and "vy \<le> vx"
  shows "store_le (trigger hy r vy) (trigger hx r vx)"
proof (cases "r < length hx")
  case True
  then have "excitatory (hy ! r) = excitatory (hx ! r)"
    using assms(1) by (auto simp: store_le_def list_all2_conv_all_nth)
  then show ?thesis
    using assms unfolding store_le_def trigger_def
    by (intro list_all2_update_cong) simp_all
next
  case False
  moreover have "length hy = length hx"
    using assms(1) by (simp add: store_le_def list_all2_lengthD)
  ultimately show ?thesis
    using assms(1) by (simp add: trigger_def list_update_beyond)
qed

lemma store_le_trigger_args:
  "store_le hy hx \<Longrightarrow> \<forall>i\<in>set js. i < length y \<and> i < length x \<and> y ! i \<le> x ! i \<Longrightarrow>
   store_le (snd (trigger_args ins y js hy)) (snd (trigger_args ins x js hx))"
proof (induction js arbitrary: hy hx)
  case Nil
  then show ?case by simp
next
  case (Cons i js)
  show ?case
  proof (cases "i < length ins")
    case True
    have "store_le (trigger hy (ins ! i) (y ! i)) (trigger hx (ins ! i) (x ! i))"
      using Cons.prems by (intro store_le_trigger) simp_all
    then have "store_le (snd (trigger_args ins y js (trigger hy (ins ! i) (y ! i))))
                        (snd (trigger_args ins x js (trigger hx (ins ! i) (x ! i))))"
      using Cons.prems by (intro Cons.IH) simp_all
    then show ?thesis using True Cons.prems by simp
  next
    case False
    then show ?thesis using Cons.prems by simp
  qed
qed

lemma store_le_excitation:
  "store_le hy hx \<Longrightarrow> \<forall>r\<in>set rs. r < length hx \<and> excitatory (hx ! r) \<Longrightarrow>
   excitation hy rs \<le> excitation hx rs \<and> \<not> inhibited hy rs \<and> \<not> inhibited hx rs"
proof (induction rs)
  case Nil
  then show ?case by (simp add: excitation_def inhibited_def)
next
  case (Cons r rs)
  have r: "r < length hx" "excitatory (hx ! r)" using Cons.prems by simp_all
  then have "excitatory (hy ! r)" "input_value (hy ! r) \<le> input_value (hx ! r)"
    using Cons.prems(1) by (auto simp: store_le_def list_all2_conv_all_nth)
  moreover have "excitation hy rs \<le> excitation hx rs \<and> \<not> inhibited hy rs \<and> \<not> inhibited hx rs"
    using Cons.prems by (intro Cons.IH) simp_all
  ultimately show ?case using r by (simp add: excitation_def inhibited_def)
qed

lemma trigger_args_keeps_excitatory:
  assumes "r < length h"
  shows "excitatory (snd (trigger_args ins args js h) ! r) = excitatory (h ! r)"
proof -
  let ?h' = "snd (trigger_args ins args js h)"
  have "r < length ?h'" using assms by (simp add: trigger_args_length)
  then have "excitatory (?h' ! r) = map excitatory ?h' ! r" by simp
  also have "\<dots> = map excitatory h ! r" by (simp only: trigger_args_excitatory)
  also have "\<dots> = excitatory (h ! r)" using assms by simp
  finally show ?thesis .
qed

text \<open>
  Claim C9. For a neuron whose inputs are all excitatory (and are objects of the store),
  and bit-vectors \<open>x\<close>, \<open>y\<close> of the length of its input list such that every position
  that is 1 in \<open>y\<close> is 1 in \<open>x\<close>: triggering the inputs with \<open>x\<close> or with \<open>y\<close> raises
  no error, and the activation after \<open>x\<close> is at least the activation after \<open>y\<close>.
\<close>

theorem excitatory_only_monotone:
  assumes "\<forall>r\<in>set (inputs n). r < length h \<and> excitatory (h ! r)"
      and "length x = length (inputs n)" and "length y = length (inputs n)"
      and "bits x" and "bits y"
      and "\<forall>i<length y. y ! i = 1 \<longrightarrow> x ! i = 1"
  shows "fst (trigger_args (inputs n) x [0..<length (inputs n)] h) = None
       \<and> fst (trigger_args (inputs n) y [0..<length (inputs n)] h) = None
       \<and> activate (snd (trigger_args (inputs n) y [0..<length (inputs n)] h)) n
          \<le> activate (snd (trigger_args (inputs n) x [0..<length (inputs n)] h)) n"
proof (intro conjI)
  let ?m = "length (inputs n)"
  let ?hx = "snd (trigger_args (inputs n) x [0..<?m] h)"
  let ?hy = "snd (trigger_args (inputs n) y [0..<?m] h)"
  show "fst (trigger_args (inputs n) x [0..<?m] h) = None"
    using assms(2) by (intro trigger_args_no_error) simp
  show "fst (trigger_args (inputs n) y [0..<?m] h) = None"
    using assms(3) by (intro trigger_args_no_error) simp
  have pointwise: "\<forall>i\<in>set [0..<?m]. i < length y \<and> i < length x \<and> y ! i \<le> x ! i"
  proof
    fix i assume "i \<in> set [0..<?m]"
    then have i: "i < length y" "i < length x" using assms(2,3) by simp_all
    then have "y ! i \<in> set y" "x ! i \<in> set x" by simp_all
    then have "(y ! i = 0 \<or> y ! i = 1) \<and> (x ! i = 0 \<or> x ! i = 1)"
      using assms(4,5) by (simp add: bits_def)
    moreover have "y ! i = 1 \<longrightarrow> x ! i = 1" using assms(6) i by simp
    ultimately have "y ! i \<le> x ! i" by auto
    then show "i < length y \<and> i < length x \<and> y ! i \<le> x ! i" using i by simp
  qed
  have le: "store_le ?hy ?hx"
    by (rule store_le_trigger_args [OF store_le_refl pointwise])
  have exc: "\<forall>r\<in>set (inputs n). r < length ?hx \<and> excitatory (?hx ! r)"
    using assms(1) by (simp add: trigger_args_length trigger_args_keeps_excitatory)
  have "excitation ?hy (inputs n) \<le> excitation ?hx (inputs n)
        \<and> \<not> inhibited ?hy (inputs n) \<and> \<not> inhibited ?hx (inputs n)"
    by (rule store_le_excitation [OF le exc])
  then show "activate ?hy n \<le> activate ?hx n"
    by (simp add: activate_eq)
qed

theorem excitatory_only_monotone_witness:
  "bits [1, 1] \<and> bits [0, 1]
   \<and> activate (snd (trigger_args [0, 2] [0, 1] [0..<2] example_store)) \<lparr>threshold = 2, inputs = [0, 2]\<rparr>
      \<le> activate (snd (trigger_args [0, 2] [1, 1] [0..<2] example_store)) \<lparr>threshold = 2, inputs = [0, 2]\<rparr>"
proof -
  let ?n = "\<lparr>threshold = 2, inputs = [0, 2]\<rparr>"
  have p1: "\<forall>r\<in>set (inputs ?n). r < length example_store \<and> excitatory (example_store ! r)"
    by (simp add: example_store_def)
  have p2: "length [1, 1 :: int] = length (inputs ?n)" and p3: "length [0, 1 :: int] = length (inputs ?n)"
    by simp_all
  have p4: "bits [1, 1]" and p5: "bits [0, 1]" by (simp_all add: bits_def)
  have p6: "\<forall>i<length [0, 1 :: int]. [0, 1 :: int] ! i = 1 \<longrightarrow> [1, 1 :: int] ! i = 1"
    by (simp add: less_Suc_eq)
  have "activate (snd (trigger_args (inputs ?n) [0, 1] [0..<length (inputs ?n)] example_store)) ?n
      \<le> activate (snd (trigger_args (inputs ?n) [1, 1] [0..<length (inputs ?n)] example_store)) ?n"
    using excitatory_only_monotone [OF p1 p2 p3 p4 p5 p6] by blast
  then have c: "activate (snd (trigger_args [0, 2] [0, 1] [0..<2] example_store)) ?n
      \<le> activate (snd (trigger_args [0, 2] [1, 1] [0..<2] example_store)) ?n"
    by (simp add: upt_conv_Cons)
  show ?thesis by (intro conjI) (fact p4 p5 c)+
qed

section \<open>Construction of a Decoder\<close>

text \<open>
  Claim C6. Constructing a Decoder from an empty collection fails at construction time:
  \<^verbatim>\<open>Decoder([])\<close> raises (the IndexError of \<^verbatim>\<open>self.vectors[0]\<close>) and no Decoder object
  is produced.
\<close>

theorem Decoder_init_empty_fails: "Decoder_init [] = Inl IndexError"
  by (simp add: Decoder_init_def)

text \<open>
  Claim C3, evaluated on the code. \<^verbatim>\<open>Decoder([[0,1],[1,0,0]])\<close> is constructed without
  an error, with \<^verbatim>\<open>vec_length\<close> 2: the assertion meant to compare the lengths tests a
  generator object and cannot fail.
\<close>

theorem Decoder_init_mismatched_succeeds:
  "Decoder_init [[0, 1], [1, 0, 0]] = Inr \<lparr>vectors = [[0, 1], [1, 0, 0]], vec_length = 2\<rparr>"
  by (simp add: Decoder_init_def generator_truth_def)

section \<open>The decoder unit of a vector\<close>

lemma excitation_zip:
  "excitation h rs =
     (\<Sum>(e, x)\<leftarrow>zip (map (\<lambda>r. excitatory (h ! r)) rs) (map (\<lambda>r. input_value (h ! r)) rs).
        if e then x else 0)"
  by (induction rs) (simp_all add: excitation_def)

lemma inhibited_zip:
  "inhibited h rs =
     (\<exists>(e, x)\<in>set (zip (map (\<lambda>r. excitatory (h ! r)) rs) (map (\<lambda>r. input_value (h ! r)) rs)).
        \<not> e \<and> x \<noteq> 0)"
  by (induction rs) (simp_all add: inhibited_def)

lemma activate_unit_output:
  "activate h n =
     unit_output (map (\<lambda>r. excitatory (h ! r)) (inputs n))
                 (map (\<lambda>r. input_value (h ! r)) (inputs n)) (threshold n)"
  unfolding activate_eq unit_output_def excitation_zip inhibited_zip by simp

lemma bits_Nil [simp]: "bits []"
  by (simp add: bits_def)

lemma bits_Cons [simp]: "bits (x # xs) = ((x = 0 \<or> x = 1) \<and> bits xs)"
  by (auto simp: bits_def)

lemma matched_sum_Nil [simp]: "matched_sum [] [] = 0"
  by (simp add: matched_sum_def)

lemma matched_sum_Cons [simp]:
  "matched_sum (b # v) (x # a) = (if b = 1 then x else 0) + matched_sum v a"
  by (simp add: matched_sum_def)

lemma mismatch_Nil [simp]: "\<not> mismatch [] []"
  by (simp add: mismatch_def)

lemma mismatch_Cons [simp]:
  "mismatch (b # v) (x # a) = ((b \<noteq> 1 \<and> x \<noteq> 0) \<or> mismatch v a)"
  by (simp add: mismatch_def)

lemma matched_sum_le:
  "length v = length a \<Longrightarrow> bits v \<Longrightarrow> bits a \<Longrightarrow> matched_sum v a \<le> sum_list v"
  by (induction v a rule: list_induct2) auto

lemma matched_sum_eq:
  "length v = length a \<Longrightarrow> bits v \<Longrightarrow> bits a \<Longrightarrow> \<not> mismatch v a \<Longrightarrow>
   (sum_list v \<le> matched_sum v a) = (a = v)"
proof (induction v a rule: list_induct2)
  case Nil
  then show ?case by simp
next
  case (Cons b v x a)
  have le: "matched_sum v a \<le> sum_list v"
    using Cons.hyps Cons.prems by (intro matched_sum_le) simp_all
  have ih: "(a = v) = (sum_list v \<le> matched_sum v a)"
    using Cons.prems by (intro Cons.IH [symmetric]) simp_all
  have "b = 0 \<or> b = 1" and "x = 0 \<or> x = 1" and "b = 1 \<or> x = 0"
    using Cons.prems by simp_all
  then consider "b = 1" "x = 1" | "b = 1" "x = 0" | "b = 0" "x = 0"
    by auto
  then show ?case
  proof cases
    case 1
    then show ?thesis by (simp add: ih)
  next
    case 2
    then show ?thesis using le by simp
  next
    case 3
    then show ?thesis by (simp add: ih)
  qed
qed

lemma mismatch_not_equal:
  "length v = length a \<Longrightarrow> bits v \<Longrightarrow> mismatch v a \<Longrightarrow> a \<noteq> v"
  by (induction v a rule: list_induct2) auto

lemma unit_output_decoder:
  assumes "length v = length a" and "bits v" and "bits a"
  shows "unit_output (map (\<lambda>b. b = 1) v) a (sum_list v) = (if a = v then 1 else 0)"
proof (cases "mismatch v a")
  case True
  then show ?thesis
    using mismatch_not_equal [OF assms(1,2)]
    by (simp add: unit_output_def mismatch_def)
next
  case False
  then show ?thesis
    using matched_sum_eq [OF assms]
    by (simp add: unit_output_def mismatch_def matched_sum_def)
qed

lemma unit_for_append:
  assumes "unit_for pol n u v"
  shows "unit_for (pol @ ext) n u v"
proof -
  have valid: "\<forall>r\<in>set (inputs u). r < length pol"
    using assms by (simp add: unit_for_def)
  have "map (\<lambda>r. (pol @ ext) ! r) (inputs u) = map (\<lambda>r. pol ! r) (inputs u)"
    using valid by (intro map_cong) (simp_all add: nth_append)
  also have "\<dots> = map (\<lambda>b. b = 1) v"
    using assms by (simp add: unit_for_def)
  finally have "map (\<lambda>r. (pol @ ext) ! r) (inputs u) = map (\<lambda>b. b = 1) v" .
  then show ?thesis
    using assms unfolding unit_for_def by auto
qed

lemma unit_fires_iff:
  assumes u: "unit_for (map excitatory h) n u v"
      and "bits v" and "bits a" and "length a = n"
  shows "activate (snd (trigger_args (inputs u) a [0..<n] h)) u = (if a = v then 1 else 0)"
proof -
  let ?h' = "snd (trigger_args (inputs u) a [0..<n] h)"
  have len: "length (inputs u) = n" "length v = n" and dist: "distinct (inputs u)"
    and valid: "\<forall>r\<in>set (inputs u). r < length h"
    and pol: "map (\<lambda>r. map excitatory h ! r) (inputs u) = map (\<lambda>b. b = 1) v"
    and thr: "threshold u = sum_list v"
    using u by (simp_all add: unit_for_def)
  have pol_eq: "map excitatory ?h' = map excitatory h"
    by (rule trigger_args_excitatory)
  have len': "length ?h' = length h"
    by (rule trigger_args_length)
  have "map (\<lambda>r. excitatory (?h' ! r)) (inputs u) = map (\<lambda>r. map excitatory ?h' ! r) (inputs u)"
    using valid len' by simp
  then have es: "map (\<lambda>r. excitatory (?h' ! r)) (inputs u) = map (\<lambda>b. b = 1) v"
    by (simp only: pol_eq pol)
  have xs: "map (\<lambda>r. input_value (?h' ! r)) (inputs u) = a"
  proof (rule nth_equalityI)
    show "length (map (\<lambda>r. input_value (?h' ! r)) (inputs u)) = length a"
      using len assms(4) by simp
  next
    fix i assume "i < length (map (\<lambda>r. input_value (?h' ! r)) (inputs u))"
    then have i: "i < length (inputs u)" by simp
    have "input_value (?h' ! (inputs u ! i)) = (if 0 \<le> i \<and> i < n then a ! i else input_value (h ! (inputs u ! i)))"
      using dist valid len assms(4) i by (intro trigger_args_values) simp_all
    then show "map (\<lambda>r. input_value (?h' ! r)) (inputs u) ! i = a ! i"
      using i len by simp
  qed
  have "length v = length a" using len assms(4) by simp
  then show ?thesis
    unfolding activate_unit_output es xs thr
    using assms(2,3) by (rule unit_output_decoder)
qed

lemma build_inputs_range:
  "k \<le> n \<Longrightarrow> n \<le> length vector \<Longrightarrow>
   build_inputs vector [k..<n] h ins =
     Inr (h @ map (\<lambda>i. MPInput_init (vector ! i = 1)) [k..<n],
          ins @ [length h..<length h + (n - k)])"
proof (induction "n - k" arbitrary: k h ins)
  case 0
  then show ?case by simp
next
  case (Suc d)
  then have kn: "k < n" by simp
  let ?f = "\<lambda>i. MPInput_init (vector ! i = 1)"
  let ?h1 = "h @ [?f k]"
  have up: "[k..<n] = k # [Suc k..<n]"
    by (rule upt_conv_Cons [OF kn])
  have ih: "build_inputs vector [Suc k..<n] ?h1 (ins @ [length h]) =
     Inr (?h1 @ map ?f [Suc k..<n], (ins @ [length h]) @ [length ?h1..<length ?h1 + (n - Suc k)])"
    using Suc.hyps(2) Suc.prems kn by (intro Suc.hyps(1)) simp_all
  have a: "length ?h1 + (n - Suc k) = length h + (n - k)"
    using kn by simp
  have b: "[length h..<length h + (n - k)] = length h # [length ?h1..<length h + (n - k)]"
    using kn by (simp add: upt_conv_Cons)
  have r1: "?h1 @ map ?f [Suc k..<n] = h @ map ?f [k..<n]"
    unfolding up by simp
  have r2: "(ins @ [length h]) @ [length ?h1..<length ?h1 + (n - Suc k)] = ins @ [length h..<length h + (n - k)]"
    by (simp only: a b append_assoc append_Cons append_Nil)
  have "build_inputs vector [k..<n] h ins = build_inputs vector (k # [Suc k..<n]) h ins"
    by (simp only: up [symmetric])
  also have "\<dots> = build_inputs vector [Suc k..<n] ?h1 (ins @ [length h])"
    using kn Suc.prems by (simp add: new_MPInput_def)
  also have "\<dots> = Inr (h @ map ?f [k..<n], ins @ [length h..<length h + (n - k)])"
    by (simp only: ih r1 r2)
  finally show ?case .
qed

lemma build_unit_eq:
  "length v = n \<Longrightarrow>
   build_unit n v h =
     Inr (h @ map (\<lambda>b. MPInput_init (b = 1)) v,
          \<lparr>threshold = sum_list v, inputs = [length h..<length h + n]\<rparr>)"
proof -
  assume n: "length v = n"
  have "map (\<lambda>i. MPInput_init (v ! i = 1)) [0..<n] = map (\<lambda>b. MPInput_init (b = 1)) v"
    using n by (intro nth_equalityI) simp_all
  then show ?thesis
    using n build_inputs_range [of 0 n v h "[]"] by (simp add: build_unit_def)
qed

lemma unit_for_built:
  assumes "length v = n"
  shows "unit_for (map excitatory (h @ map (\<lambda>b. MPInput_init (b = 1)) v)) n
           \<lparr>threshold = sum_list v, inputs = [length h..<length h + n]\<rparr> v"
proof -
  have "map (\<lambda>r. map excitatory (h @ map (\<lambda>b. MPInput_init (b = 1)) v) ! r) [length h..<length h + n]
        = map (\<lambda>b. b = 1) v"
    using assms by (intro nth_equalityI) (simp_all add: nth_append MPInput_init_def)
  then show ?thesis using assms by (simp add: unit_for_def)
qed

lemma build_units_ok:
  "\<forall>v\<in>set vs. length v = n \<Longrightarrow>
   \<exists>h' us' ext. build_units n vs h us ins =
        Inr (h', us @ us', if vs = [] then ins else Some (inputs (last us')))
      \<and> list_all2 (unit_for (map excitatory h') n) us' vs
      \<and> map excitatory h' = map excitatory h @ ext"
proof (induction vs arbitrary: h us ins)
  case Nil
  then show ?case by simp
next
  case (Cons v vs)
  let ?h1 = "h @ map (\<lambda>b. MPInput_init (b = 1)) v"
  let ?g = "\<lparr>threshold = sum_list v, inputs = [length h..<length h + n]\<rparr>"
  have lv: "length v = n" and rest: "\<forall>v\<in>set vs. length v = n" using Cons.prems by simp_all
  obtain h' us' ext where
    b: "build_units n vs ?h1 (us @ [?g]) (Some (inputs ?g)) =
          Inr (h', (us @ [?g]) @ us', if vs = [] then Some (inputs ?g) else Some (inputs (last us')))"
    and a: "list_all2 (unit_for (map excitatory h') n) us' vs"
    and e: "map excitatory h' = map excitatory ?h1 @ ext"
    using Cons.IH [OF rest, of ?h1 "us @ [?g]" "Some (inputs ?g)"] by blast
  have g: "unit_for (map excitatory h') n ?g v"
    unfolding e by (rule unit_for_append) (rule unit_for_built [OF lv])
  have empty: "vs = [] \<Longrightarrow> us' = []" using a by simp
  have nonempty: "vs \<noteq> [] \<Longrightarrow> us' \<noteq> []" using a by auto
  have "build_units n (v # vs) h us ins =
          Inr (h', us @ (?g # us'), Some (inputs (last (?g # us'))))"
    using b empty nonempty by (simp add: build_unit_eq [OF lv])
  moreover have "list_all2 (unit_for (map excitatory h') n) (?g # us') (v # vs)"
    using g a by simp
  moreover have "map excitatory h' = map excitatory h @ (map excitatory (map (\<lambda>b. MPInput_init (b = 1)) v) @ ext)"
    using e by simp
  ultimately show ?case by (intro exI [of _ h'] exI [of _ "?g # us'"] exI) auto
qed

text \<open>
  Claim C5. For a bit-vector \<open>v\<close>, the unit that \<open>decode\<close> builds for \<open>v\<close> has the
  threshold \<open>sum_list v\<close> and, at each position \<open>i\<close>, an excitatory input if
  \<open>v ! i = 1\<close> and an inhibitory one otherwise; after its inputs are triggered with a
  bit-vector \<open>a\<close> of the same length it activates to 1 if and only if \<open>a = v\<close>.
\<close>

theorem decoder_unit_fires_iff_equal:
  assumes "bits v" and "bits a" and "length a = length v"
  shows "\<exists>h' u. build_unit (length v) v h = Inr (h', u)
           \<and> threshold u = sum_list v
           \<and> length (inputs u) = length v
           \<and> (\<forall>i<length v. excitatory (h' ! (inputs u ! i)) = (v ! i = 1))
           \<and> (activate (snd (trigger_args (inputs u) a [0..<length v] h')) u = 1 \<longleftrightarrow> a = v)"
proof -
  let ?n = "length v"
  let ?h' = "h @ map (\<lambda>b. MPInput_init (b = 1)) v"
  let ?u = "\<lparr>threshold = sum_list v, inputs = [length h..<length h + ?n]\<rparr>"
  have b: "build_unit ?n v h = Inr (?h', ?u)"
    by (rule build_unit_eq) simp
  have uf: "unit_for (map excitatory ?h') ?n ?u v"
    by (rule unit_for_built) simp
  have fire: "activate (snd (trigger_args (inputs ?u) a [0..<?n] ?h')) ?u = (if a = v then 1 else 0)"
    by (rule unit_fires_iff [OF uf assms])
  have pol: "\<forall>i<?n. excitatory (?h' ! (inputs ?u ! i)) = (v ! i = 1)"
    by (simp add: nth_append MPInput_init_def)
  show ?thesis
    using b pol fire by (intro exI [of _ ?h'] exI [of _ ?u]) simp
qed

theorem decoder_unit_fires_iff_equal_witness:
  "bits [1, 0] \<and> bits [1, 1]
   \<and> (\<exists>h' u. build_unit 2 [1, 0] [] = Inr (h', u)
         \<and> activate (snd (trigger_args (inputs u) [1, 0] [0..<2] h')) u = 1)
   \<and> (\<exists>h' u. build_unit 2 [1, 0] [] = Inr (h', u)
         \<and> activate (snd (trigger_args (inputs u) [1, 1] [0..<2] h')) u = 0)"
proof -
  have v: "bits [1, 0]" and a: "bits [1, 1]" by simp_all
  have c1: "\<exists>h' u. build_unit 2 [1, 0] [] = Inr (h', u)
         \<and> activate (snd (trigger_args (inputs u) [1, 0] [0..<2] h')) u = 1"
    using decoder_unit_fires_iff_equal [OF v v, of "[]"]
    by (simp add: build_unit_def new_MPInput_def MPInput_init_def trigger_def activate_def
        upt_conv_Cons)
  have c2: "\<exists>h' u. build_unit 2 [1, 0] [] = Inr (h', u)
         \<and> activate (snd (trigger_args (inputs u) [1, 1] [0..<2] h')) u = 0"
    using decoder_unit_fires_iff_equal [OF v a, of "[]"]
    by (simp add: build_unit_def new_MPInput_def MPInput_init_def trigger_def activate_def
        upt_conv_Cons)
  show ?thesis by (intro conjI) (fact v a c1 c2)+
qed

section \<open>The first invocation of the decoder callable\<close>

lemma OR_eq: "OR x y = (if 1 \<le> x + y then 1 else 0)"
  by (simp add: OR_def new_MPInput_def MPInput_init_def trigger_def activate_def)

lemma or_loop_result:
  assumes "list_all2 (unit_for pol n) us vs"
  shows "map excitatory h = pol \<Longrightarrow> \<forall>v\<in>set vs. bits v \<Longrightarrow> bits a \<Longrightarrow> length a = n \<Longrightarrow>
         or_arg = 0 \<or> or_arg = 1 \<Longrightarrow>
         fst (or_loop n a us or_arg h) = Inr (if or_arg = 1 \<or> a \<in> set vs then 1 else 0)"
  using assms
proof (induction us vs arbitrary: h or_arg rule: list_all2_induct)
  case Nil
  then show ?case by auto
next
  case (Cons u us v vs)
  let ?t = "trigger_args (inputs u) a [0..<n] h"
  have uf: "unit_for (map excitatory h) n u v"
    using Cons.hyps(1) Cons.prems(1) by simp
  have len: "length (inputs u) = n" using Cons.hyps(1) by (simp add: unit_for_def)
  have ok: "fst ?t = None"
    using len Cons.prems(4) by (intro trigger_args_no_error) simp
  have bv: "bits v" and bvs: "\<forall>v\<in>set vs. bits v" using Cons.prems(2) by simp_all
  have fire: "activate (snd ?t) u = (if a = v then 1 else 0)"
    by (rule unit_fires_iff [OF uf bv Cons.prems(3) Cons.prems(4)])
  have pol: "map excitatory (snd ?t) = pol"
    using Cons.prems(1) by (simp add: trigger_args_excitatory)
  let ?o = "OR or_arg (activate (snd ?t) u)"
  have o: "?o = (if or_arg = 1 \<or> a = v then 1 else 0)"
    using Cons.prems(5) by (auto simp: fire OR_eq)
  have obit: "?o = 0 \<or> ?o = 1" by (simp add: o)
  have "fst (or_loop n a us ?o (snd ?t)) = Inr (if ?o = 1 \<or> a \<in> set vs then 1 else 0)"
    by (rule Cons.IH [OF pol bvs Cons.prems(3) Cons.prems(4) obit])
  moreover have "or_loop n a (u # us) or_arg h = or_loop n a us ?o (snd ?t)"
    using ok by (cases ?t) simp
  ultimately show ?case by (simp add: o)
qed

lemma decoder_unfold:
  assumes "captured_inputs c = Some ins"
      and "trigger_args ins args [0..<self_vec_length c] (heap c) = (None, h1)"
      and "rev (decoder_units c) = u0 # rest"
  shows "fst (decoder c args) =
           fst (or_loop (self_vec_length c) args (u0 # rest) (activate h1 u0) h1)"
  using assms by (simp add: decoder_def Let_def split_beta del: or_loop.simps)

text \<open>
  Claim C10. For a non-empty collection \<open>V\<close> of bit-vectors of one length \<open>n\<close>,
  \<^verbatim>\<open>Decoder(V).decode()\<close> succeeds, and the first invocation of the callable on a
  bit-vector \<open>a\<close> of length \<open>n\<close> returns 1 if \<open>a\<close> is an element of \<open>V\<close> and 0
  otherwise.
\<close>

theorem first_call_correct:
  assumes "V \<noteq> []" and "\<forall>v\<in>set V. length v = n \<and> bits v"
      and "length a = n" and "bits a"
  shows "\<exists>c. make_decoder V = Inr c
             \<and> fst (decoder c a) = Inr (if a \<in> set V then 1 else 0)"
proof -
  have lens: "\<forall>v\<in>set V. length v = n" and bv: "\<forall>v\<in>set V. bits v"
    using assms(2) by simp_all
  have "hd V \<in> set V" using assms(1) by simp
  then have "length (hd V) = n" using lens by blast
  then have init: "Decoder_init V = Inr \<lparr>vectors = V, vec_length = n\<rparr>"
    using assms(1) by (cases V) (simp_all add: Decoder_init_def generator_truth_def)
  obtain h' us where
    b: "build_units n V [] [] None = Inr (h', [] @ us, if V = [] then None else Some (inputs (last us)))"
    and all: "list_all2 (unit_for (map excitatory h') n) us V"
    using build_units_ok [OF lens, of "[]" "[]" None] by blast
  let ?ins = "inputs (last us)"
  let ?c = "\<lparr>heap = h', decoder_units = us, captured_inputs = Some ?ins, self_vec_length = n\<rparr>"
  have mk: "make_decoder V = Inr ?c"
    using init b assms(1) by (simp add: make_decoder_def decode_def)
  have us_ne: "us \<noteq> []" using all assms(1) by auto
  have len_eq: "length us = length V" using all by (rule list_all2_lengthD)
  have "unit_for (map excitatory h') n (us ! (length us - 1)) (V ! (length us - 1))"
    by (rule list_all2_nthD [OF all]) (use us_ne in simp)
  then have last_unit: "unit_for (map excitatory h') n (last us) (last V)"
    using us_ne assms(1) len_eq by (simp add: last_conv_nth)
  let ?t = "trigger_args ?ins a [0..<n] h'"
  have ok: "fst ?t = None"
    using last_unit assms(3) by (intro trigger_args_no_error) (simp add: unit_for_def)
  have bl: "bits (last V)" using bv assms(1) by simp
  have or_arg: "activate (snd ?t) (last us) = (if a = last V then 1 else 0)"
    by (rule unit_fires_iff [OF last_unit bl assms(4) assms(3)])
  have pol: "map excitatory (snd ?t) = map excitatory h'"
    by (rule trigger_args_excitatory)
  have rall: "list_all2 (unit_for (map excitatory h') n) (rev us) (rev V)"
    using all by simp
  have brv: "\<forall>v\<in>set (rev V). bits v" using bv by simp
  have obit: "activate (snd ?t) (last us) = 0 \<or> activate (snd ?t) (last us) = 1"
    by (simp add: or_arg)
  have loop: "fst (or_loop n a (rev us) (activate (snd ?t) (last us)) (snd ?t)) =
                Inr (if activate (snd ?t) (last us) = 1 \<or> a \<in> set (rev V) then 1 else 0)"
    by (rule or_loop_result [OF rall pol brv assms(4) assms(3) obit])
  have "last V \<in> set V" using assms(1) by simp
  then have cond: "(if activate (snd ?t) (last us) = 1 \<or> a \<in> set (rev V) then 1 else 0) =
                   (if a \<in> set V then 1 else (0::int))"
    by (auto simp: or_arg)
  have res: "fst (or_loop n a (rev us) (activate (snd ?t) (last us)) (snd ?t)) =
                Inr (if a \<in> set V then 1 else 0)"
    by (simp only: loop cond)
  obtain rest where r: "rev us = last us # rest"
    using us_ne by (cases us rule: rev_cases) simp_all
  have t: "?t = (None, snd ?t)" using ok by (simp add: prod_eq_iff)
  have "fst (decoder ?c a) =
          fst (or_loop (self_vec_length ?c) a (last us # rest) (activate (snd ?t) (last us)) (snd ?t))"
    by (rule decoder_unfold [where ins = ?ins]) (simp_all add: r t [symmetric])
  then have "fst (decoder ?c a) = fst (or_loop n a (rev us) (activate (snd ?t) (last us)) (snd ?t))"
    by (simp only: r [symmetric] closure.select_convs)
  then show ?thesis using mk res by simp
qed

theorem first_call_correct_witness:
  "[[0, 1], [1, 0 :: int]] \<noteq> [] \<and> bits [0, 1] \<and> bits [1, 0] \<and> bits [1, 1]
   \<and> (\<exists>c. make_decoder [[0, 1], [1, 0]] = Inr c \<and> fst (decoder c [1, 0]) = Inr 1)
   \<and> (\<exists>c. make_decoder [[0, 1], [1, 0]] = Inr c \<and> fst (decoder c [1, 1]) = Inr 0)"
proof -
  have p1: "[[0, 1], [1, 0 :: int]] \<noteq> []" by simp
  have p2: "\<forall>v\<in>set [[0, 1], [1, 0]]. length v = 2 \<and> bits v" by simp
  have p3: "bits [1, 0]" and p4: "bits [1, 1]" and p5: "bits [0, 1]" by simp_all
  have c1: "\<exists>c. make_decoder [[0, 1], [1, 0]] = Inr c \<and> fst (decoder c [1, 0]) = Inr 1"
    using first_call_correct [OF p1 p2 _ p3] by simp
  have c2: "\<exists>c. make_decoder [[0, 1], [1, 0]] = Inr c \<and> fst (decoder c [1, 1]) = Inr 0"
    using first_call_correct [OF p1 p2 _ p4] by simp
  show ?thesis by (intro conjI) (fact p1 p3 p4 p5 c1 c2)+
qed

section \<open>Repeated invocations of the decoder callable\<close>

text \<open>
  Claim C1, evaluated on the code. For the vectors \<open>[[0,1],[1,0]]\<close> the call
  \<^verbatim>\<open>f(0,1)\<close> returns 1 and the following call \<^verbatim>\<open>f(0,0)\<close> returns 1 as well, although
  \<open>[0,0]\<close> is not one of the vectors: the second call activates the first unit before
  triggering it, on the values left there by the first call.
\<close>

theorem decoder_second_call_wrong:
  "call_results [[0, 1], [1, 0]] [[0, 1], [0, 0]] = Inr [Inr 1, Inr 1]"
  by (simp add: build_simps call_simps)

text \<open>
  Claim C4, evaluated on the code. Of three successive calls \<^verbatim>\<open>f(0,1)\<close>, \<^verbatim>\<open>f(0,0)\<close>,
  \<^verbatim>\<open>f(0,0)\<close> of one callable, the two with the same arguments return 1 and then 0: the
  result depends on the calls made before.
\<close>

theorem decoder_depends_on_history:
  "call_results [[0, 1], [1, 0]] [[0, 1], [0, 0], [0, 0]] = Inr [Inr 1, Inr 1, Inr 0]"
  by (simp add: build_simps call_simps)

text \<open>
  Claim C7, evaluated on the code. The callable for \<open>[[1]]\<close> answers the calls
  \<^verbatim>\<open>f(1)\<close>, \<^verbatim>\<open>f(0)\<close> with 1, 0; the callable for \<open>[[1]]\<close> with its vector appended once
  more answers the same calls with 1, 1.
\<close>

theorem decoder_duplicate_differs:
  "call_results [[1]] [[1], [0]] = Inr [Inr 1, Inr 0]
   \<and> call_results ([[1]] @ [[1]]) [[1], [0]] = Inr [Inr 1, Inr 1]"
  by (simp add: build_simps call_simps)

end
